theory Spec2Isabelle
  imports Main "HOL-Library.Char_ord" "HOL-Library.List_Lexorder"
begin

section \<open>Strings, integers and sets of the wordlist generator\<close>

text \<open>
  The development embeds \<^verbatim>\<open>generate_massive_wordlists.py\<close>. A Python \<^verbatim>\<open>str\<close> is a
  \<^typ>\<open>string\<close>, one \<^typ>\<open>char\<close> per code point (code points 0 to 255); strings are compared as
  Python compares them, lexicographically by code point. Lengths and the differences computed
  from them are Python integers, hence \<^typ>\<open>int\<close>.

  A Python \<^verbatim>\<open>set\<close> of strings is represented by the log of the elements added to it, oldest
  first (\<open>pyset\<close>); its elements are \<open>set\<close> of the log. The order in which Python iterates a set
  is not fixed by the language (string hashes change from one process to the next), so it is
  a parameter of the model: an \<open>iteration\<close> maps the log of a set to the list that iterating
  the set yields. \<open>valid_iteration\<close> says what every run guarantees: each element of the set
  is met exactly once.
\<close>

type_synonym pyset = "string list"

type_synonym iteration = "pyset \<Rightarrow> string list"

definition valid_iteration :: "iteration \<Rightarrow> bool" where
  "valid_iteration iter \<longleftrightarrow> (\<forall>s. distinct (iter s) \<and> set (iter s) = set s)"

text \<open>\<^verbatim>\<open>s.add(x)\<close>\<close>
definition add_py :: "string \<Rightarrow> pyset \<Rightarrow> pyset" where
  "add_py x s = s @ [x]"

text \<open>\<^verbatim>\<open>s.update(other)\<close>: the elements of \<open>other\<close> are added as iterating \<open>other\<close> yields them.\<close>
definition update_py :: "iteration \<Rightarrow> pyset \<Rightarrow> pyset \<Rightarrow> pyset" where
  "update_py iter other s = fold add_py (iter other) s"

text \<open>\<^verbatim>\<open>s * n\<close> on a string: \<open>n\<close> copies, none when \<open>n\<close> is not positive.\<close>
definition py_mul :: "string \<Rightarrow> int \<Rightarrow> string" where
  "py_mul s n = concat (replicate (nat n) s)"

text \<open>\<^verbatim>\<open>xs[:n]\<close>: the first \<open>n\<close> items, or all but the last \<open>-n\<close> when \<open>n\<close> is negative.\<close>
definition py_slice_to :: "'a list \<Rightarrow> int \<Rightarrow> 'a list" where
  "py_slice_to xs n = (if 0 \<le> n then take (nat n) xs else take (length xs - nat (- n)) xs)"

text \<open>
  \<^verbatim>\<open>str.upper()\<close>, character by character. ASCII and Latin-1 small letters go to their
  capitals, the sharp s (code point 223) to \<open>SS\<close>. The capitals of code points 181 and 255
  lie beyond code point 255; they are left in place here, and like every character outside
  the alphabet they are removed by the filter that follows the only call of \<open>py_upper\<close>.
\<close>
definition upper_char :: "char \<Rightarrow> string" where
  "upper_char c =
     (let n = (of_char c :: nat) in
      if 97 \<le> n \<and> n \<le> 122 then [char_of (n - 32)]
      else if n = 223 then ''SS''
      else if 224 \<le> n \<and> n \<le> 254 \<and> n \<noteq> 247 then [char_of (n - 32)]
      else [c])"

definition py_upper :: "string \<Rightarrow> string" where
  "py_upper w = concat (map upper_char w)"

text \<open>\<^verbatim>\<open>word.replace(old, new)\<close> for one-character \<open>old\<close> and \<open>new\<close>.\<close>
definition py_replace :: "char \<Rightarrow> char \<Rightarrow> string \<Rightarrow> string" where
  "py_replace old new w = map (\<lambda>c. if c = old then new else c) w"

section \<open>Configuration constants\<close>

definition VALID_CHARS :: string where
  "VALID_CHARS = ''123456789ABCDEFGHIJKLMNOPQRSTUVWXYZ''"

definition POPULAR_NUMS :: "string list" where
  "POPULAR_NUMS =
    [''69'', ''42'', ''666'', ''777'', ''888'', ''999'', ''123'', ''321'', ''111'', ''222'',
     ''333'', ''444'', ''555'', ''1337'', ''9999'', ''8888'', ''7777'', ''1234'', ''4321'',
     ''2222'', ''3333'', ''4444'', ''5555'', ''6666'', ''1111'']"

definition COOL_WORDS :: "string list" where
  "COOL_WORDS =
    [''GAME'', ''PLAY'', ''WIN'', ''LOSS'', ''EPIC'', ''MEGA'', ''GIGA'', ''TERA'', ''BOSS'',
     ''HERO'', ''GOD'', ''KING'', ''QUEEN'', ''ACE'', ''JOKER'', ''CARD'', ''DECK'',
     ''HAND'', ''BET'', ''FOLD'', ''CALL'', ''RAISE'', ''BLUFF'', ''POKER'', ''FLUSH'',
     ''ROYAL'', ''FULL'', ''PAIR'', ''TRIPS'', ''QUADS'', ''HIGH'', ''LOW'', ''WILD'',
     ''DRAW'', ''DEAL'', ''POWER'', ''FORCE'', ''ULTRA'', ''SUPER'', ''HYPER'', ''TURBO'',
     ''NITRO'', ''BOOST'', ''SPEED'', ''FAST'', ''QUICK'', ''SWIFT'', ''RAPID'', ''FLASH'',
     ''BOLT'', ''SHOCK'', ''SPARK'', ''FLAME'', ''FIRE'', ''ICE'', ''FROST'', ''FREEZE'',
     ''BURN'', ''BLAZE'', ''STORM'', ''WIND'', ''GALE'', ''CHAD'', ''SIGMA'', ''ALPHA'',
     ''BETA'', ''OMEGA'', ''DELTA'', ''GAMMA'', ''PRIME'', ''ELITE'', ''PRO'', ''MASTER'',
     ''LEGEND'', ''MYTH'', ''FABLE'', ''SAGA'', ''TALE'', ''LORE'', ''DOOM'', ''TECH'',
     ''CYBER'', ''HACK'', ''CODE'', ''DATA'', ''BYTE'', ''BIT'', ''PIXEL'', ''MATRIX'',
     ''GRID'', ''NET'', ''WEB'', ''LINK'', ''NODE'', ''PORT'', ''GATE'', ''CORE'',
     ''SYSTEM'', ''DRAGON'', ''PHOENIX'', ''WOLF'', ''BEAR'', ''LION'', ''TIGER'',
     ''EAGLE'', ''HAWK'', ''RAVEN'', ''SHARK'', ''WHALE'', ''VIPER'', ''COBRA'',
     ''PYTHON'', ''BEAST'', ''MONSTER'', ''MAX'', ''MAXX'', ''NEO'', ''ZEN'', ''APEX'',
     ''PEAK'', ''TOP'', ''BEST'', ''PURE'', ''TRUE'', ''REAL'', ''FAKE'', ''ANTI'',
     ''DARK'', ''LIGHT'', ''VOID'', ''NULL'', ''ZERO'', ''ONE'', ''TWO'', ''RED'',
     ''BLUE'', ''GREEN'', ''GOLD'', ''BLACK'', ''WHITE'', ''GRAY'', ''NEON'', ''GLOW'']"

text \<open>\<^verbatim>\<open>c in VALID_CHARS\<close> for a one-character string \<open>c\<close>.\<close>
definition in_valid_chars :: "char \<Rightarrow> bool" where
  "in_valid_chars c \<longleftrightarrow> c \<in> set VALID_CHARS"

section \<open>generate_padded_combinations\<close>

text \<open>
  The body of the loop over \<^verbatim>\<open>POPULAR_NUMS\<close>: the number after the word, then before it,
  each time with the four fillers when room is left.
\<close>
definition pad_with_num :: "string \<Rightarrow> int \<Rightarrow> string \<Rightarrow> pyset \<Rightarrow> pyset" where
  "pad_with_num word needed num results =
     (if int (length num) \<le> needed then
        let results =
              (if int (length (word @ num)) \<le> 8 then
                 let remaining = 8 - int (length word) - int (length num) in
                 if remaining = 0 then add_py (word @ num) results
                 else if remaining > 0 then
                   fold (\<lambda>filler. add_py (word @ num @ py_mul filler remaining))
                     [''1'', ''9'', ''X'', ''Z''] results
                 else results
               else results)
        in
          (if int (length (num @ word)) \<le> 8 then
             let remaining = 8 - int (length num) - int (length word) in
             if remaining = 0 then add_py (num @ word) results
             else if remaining > 0 then
               fold (\<lambda>filler. add_py (num @ word @ py_mul filler remaining))
                 [''1'', ''9'', ''X'', ''Z''] results
             else results
           else results)
      else results)"

text \<open>
  Everything added to \<^verbatim>\<open>results\<close> for a normalized word of 1 to 7 characters, before the
  limit is applied: number padding, character repetition, simple padding.
\<close>
definition padded_results :: "string \<Rightarrow> pyset" where
  "padded_results word =
     (let needed = 8 - int (length word);
          results = fold (pad_with_num word needed) POPULAR_NUMS [];
          results = add_py (word @ py_mul [last word] needed) results;
          results = add_py (py_mul [hd word] needed @ word) results
      in fold (\<lambda>pad_char. add_py (word @ py_mul pad_char needed))
           (map (\<lambda>c. [c]) ''123456789XZQ'')
           results)"

text \<open>The first two statements: upper-case, then drop what is not in the alphabet.\<close>
definition normalize :: "string \<Rightarrow> string" where
  "normalize word = filter in_valid_chars (py_upper word)"

definition generate_padded_combinations :: "iteration \<Rightarrow> string \<Rightarrow> int \<Rightarrow> pyset" where
  "generate_padded_combinations iter word0 max_results =
     (let word = normalize word0 in
      if word = [] \<or> length word > 8 then []
      else if length word = 8 then add_py word []
      else py_slice_to (iter (padded_results word)) max_results)"

section \<open>generate_leet_variations\<close>

text \<open>The dictionary \<^verbatim>\<open>leet_map\<close>, in the order of its items.\<close>
definition leet_map :: "(char \<times> char) list" where
  "leet_map =
    [(CHR ''A'', CHR ''4''), (CHR ''E'', CHR ''3''), (CHR ''I'', CHR ''1''),
     (CHR ''O'', CHR ''0''), (CHR ''S'', CHR ''5''), (CHR ''T'', CHR ''7''),
     (CHR ''G'', CHR ''6''), (CHR ''B'', CHR ''8''), (CHR ''L'', CHR ''1'')]"

definition generate_leet_variations :: "string \<Rightarrow> string list" where
  "generate_leet_variations word =
     fold (\<lambda>(c, leet) variations.
             if c \<in> set word \<and> in_valid_chars leet
             then variations @ [py_replace c leet word] else variations)
       leet_map [word]"

section \<open>generate_word_combinations\<close>

definition number_patterns :: "string list" where
  "number_patterns =
    [''69696969'', ''42424242'', ''66666666'', ''77777777'', ''88888888'', ''99999999'',
     ''12345678'', ''87654321'', ''11111111'', ''22222222'', ''33333333'', ''44444444'',
     ''55555555'', ''13371337'', ''42694269'', ''69426942'', ''11223344'', ''44332211'',
     ''12121212'', ''21212121'', ''13131313'', ''31313131'', ''14141414'', ''41414141'',
     ''69696942'', ''42424269'', ''69694242'', ''42426969'', ''13376969'', ''69691337'',
     ''42421337'', ''13374242'', ''66669999'', ''99996666'', ''77778888'', ''88887777'',
     ''12344321'', ''43211234'', ''11119999'', ''99991111'', ''66664242'', ''42426666'',
     ''69997777'', ''77776999'', ''88884242'', ''42428888'', ''99994242'', ''42429999'']"

text \<open>The test of the last filter, also applied to each number pattern.\<close>
definition valid_seed :: "string \<Rightarrow> bool" where
  "valid_seed s \<longleftrightarrow> length s = 8 \<and> list_all in_valid_chars s"

text \<open>First loop: the padded versions of a word and of its leet variations.\<close>
definition word_step :: "iteration \<Rightarrow> string \<Rightarrow> pyset \<Rightarrow> pyset" where
  "word_step iter word all_seeds =
     (if length word > 8 then all_seeds
      else
        let padded = generate_padded_combinations iter word 200;
            all_seeds = update_py iter padded all_seeds
        in fold (\<lambda>leet_word. update_py iter (generate_padded_combinations iter leet_word 200))
             (generate_leet_variations word) all_seeds)"

definition pattern_step :: "string \<Rightarrow> pyset \<Rightarrow> pyset" where
  "pattern_step pattern all_seeds =
     (if length pattern = 8 \<and> list_all in_valid_chars pattern
      then add_py pattern all_seeds else all_seeds)"

text \<open>Third loop, for one ordered pair of words.\<close>
definition pair_step :: "iteration \<Rightarrow> string \<Rightarrow> string \<Rightarrow> pyset \<Rightarrow> pyset" where
  "pair_step iter word1 word2 all_seeds =
     (if length word1 + length word2 \<le> 8 then
        let combined = word1 @ word2 in
        if length combined < 8
        then update_py iter (generate_padded_combinations iter combined 200) all_seeds
        else if length combined = 8 then add_py combined all_seeds
        else all_seeds
      else all_seeds)"

text \<open>Fourth loop, for one word and one number.\<close>
definition number_step :: "string \<Rightarrow> string \<Rightarrow> pyset \<Rightarrow> pyset" where
  "number_step word num all_seeds =
     (if length word + length num \<le> 8 then
        let rest = 8 - int (length word) - int (length num);
            all_seeds = add_py (take 8 (word @ num @ py_mul ''1'' rest)) all_seeds;
            all_seeds = add_py (take 8 (num @ word @ py_mul ''1'' rest)) all_seeds;
            all_seeds = add_py (take 8 (word @ num @ py_mul ''X'' rest)) all_seeds
        in add_py (take 8 (num @ word @ py_mul ''Z'' rest)) all_seeds
      else all_seeds)"

text \<open>The set \<^verbatim>\<open>all_seeds\<close> when the four loops are over.\<close>
definition collect_seeds :: "iteration \<Rightarrow> string list \<Rightarrow> pyset" where
  "collect_seeds iter words =
     (let all_seeds = fold (word_step iter) words [];
          all_seeds = fold pattern_step number_patterns all_seeds;
          all_seeds = fold (\<lambda>word1. fold (pair_step iter word1) (take 50 words))
                        (take 50 words) all_seeds
      in fold (\<lambda>word. fold (number_step word)
                 [''69'', ''42'', ''666'', ''777'', ''888'', ''999'', ''123'', ''321'', ''111''])
           words all_seeds)"

text \<open>
  The function, without its console messages: the lines it writes to the output file
  (joined there by newlines) and the count it returns.
\<close>
definition generate_word_combinations :: "iteration \<Rightarrow> string list \<Rightarrow> string list \<times> nat" where
  "generate_word_combinations iter words =
     (let all_seeds = collect_seeds iter words;
          valid_seeds = filter valid_seed (iter all_seeds);
          valid_seeds = sort valid_seeds
      in (valid_seeds, length valid_seeds))"

text \<open>An iteration order: by first insertion, as a Python \<^verbatim>\<open>dict\<close> iterates its keys.\<close>
definition insertion_order :: iteration where
  "insertion_order s = rev (remdups (rev s))"

text \<open>
  Two more, built around one string \<open>t\<close>: \<open>first_iteration t\<close> meets \<open>t\<close> before every other
  element of a set that holds it, \<open>last_iteration t\<close> meets it after every other element.
\<close>
definition first_iteration :: "string \<Rightarrow> iteration" where
  "first_iteration t s = (if t \<in> set s then [t] else []) @ removeAll t (insertion_order s)"

definition last_iteration :: "string \<Rightarrow> iteration" where
  "last_iteration t s = removeAll t (insertion_order s) @ (if t \<in> set s then [t] else [])"

section \<open>Auxiliary definitions\<close>

text \<open>
  The strings that one filler contributes in the loop over \<^verbatim>\<open>POPULAR_NUMS\<close> when room is
  left: the numbers \<open>nums\<close> after the word, and before it. They serve to count the distinct
  results of a short word.
\<close>
definition number_after :: "string \<Rightarrow> string \<Rightarrow> string list \<Rightarrow> string list" where
  "number_after word filler nums =
     map (\<lambda>num. word @ num @ py_mul filler (8 - int (length word) - int (length num))) nums"

definition number_before :: "string \<Rightarrow> string \<Rightarrow> string list \<Rightarrow> string list" where
  "number_before word filler nums =
     map (\<lambda>num. num @ word @ py_mul filler (8 - int (length num) - int (length word))) nums"

section \<open>Sets, slices and iteration orders\<close>

text \<open>A loop that only adds to a set appends to its log.\<close>

lemma fold_add_py: "fold add_py xs s = s @ xs"
  by (induction xs arbitrary: s) (simp_all add: add_py_def)

lemma update_py_append: "update_py iter other s = s @ iter other"
  by (simp add: update_py_def fold_add_py)

lemma fold_appends:
  assumes "\<And>x s. f x s = s @ g x"
  shows "fold f xs s = s @ concat (map g xs)"
proof (induction xs arbitrary: s)
  case Nil
  show ?case by simp
next
  case (Cons x xs)
  have "fold f (x # xs) s = fold f xs (f x s)" by simp
  also have "\<dots> = f x s @ concat (map g xs)" by (rule Cons.IH)
  also have "f x s = s @ g x" by (rule assms)
  finally show ?case by simp
qed

lemma set_py_slice_to: "set (py_slice_to xs n) \<subseteq> set xs"
  by (auto simp add: py_slice_to_def dest: in_set_takeD)

lemma py_slice_to_all: "int (length xs) \<le> n \<Longrightarrow> py_slice_to xs n = xs"
  by (simp add: py_slice_to_def)

lemma length_py_slice_to: "0 \<le> n \<Longrightarrow> length (py_slice_to xs n) \<le> nat n"
  by (simp add: py_slice_to_def)

lemma valid_iterationD:
  "valid_iteration iter \<Longrightarrow> distinct (iter s)"
  "valid_iteration iter \<Longrightarrow> set (iter s) = set s"
  by (simp_all add: valid_iteration_def)

lemma length_iter_le: 
  assumes "valid_iteration iter" shows "length (iter s) \<le> length s"
proof -
  have "length (iter s) = card (set (iter s))"
    using assms by (simp only: valid_iterationD(1) distinct_card)
  also have "\<dots> = card (set s)" using assms by (simp add: valid_iterationD)
  also have "\<dots> \<le> length s" by (rule card_length)
  finally show ?thesis .
qed

lemma valid_insertion_order: "valid_iteration insertion_order"
  by (simp add: valid_iteration_def insertion_order_def)

lemma length_py_mul1: "length (py_mul [c] n) = nat n"
  by (simp add: py_mul_def)

section \<open>The results collected for one word\<close>

lemma list_all_py_mul1: "P c \<Longrightarrow> list_all P (py_mul [c] n)"
  by (simp add: py_mul_def list_all_iff)

lemma pad_with_num_nil:
  "pad_with_num w needed num [] =
     (if int (length num) \<le> needed \<and> int (length w) + int (length num) \<le> 8 then
        (if int (length w) + int (length num) = 8 then [w @ num, num @ w]
         else map (\<lambda>f. w @ num @ py_mul f (8 - int (length w) - int (length num)))
                [''1'', ''9'', ''X'', ''Z''] @
              map (\<lambda>f. num @ w @ py_mul f (8 - int (length num) - int (length w)))
                [''1'', ''9'', ''X'', ''Z''])
      else [])"
  by (simp add: pad_with_num_def add_py_def Let_def)

lemma pad_with_num_append:
  "pad_with_num w needed num r = r @ pad_with_num w needed num []"
  by (simp add: pad_with_num_def add_py_def Let_def)

lemma number_loop:
  "fold (pad_with_num w needed) nums r =
     r @ concat (map (\<lambda>num. pad_with_num w needed num []) nums)"
  by (rule fold_appends) (rule pad_with_num_append)

lemma padded_results_eq:
  "padded_results w =
     concat (map (\<lambda>num. pad_with_num w (8 - int (length w)) num []) POPULAR_NUMS) @
     [w @ py_mul [last w] (8 - int (length w)), py_mul [hd w] (8 - int (length w)) @ w] @
     map (\<lambda>p. w @ py_mul p (8 - int (length w)))
       (map (\<lambda>c. [c]) ''123456789XZQ'')"
  by (simp add: padded_results_def Let_def number_loop add_py_def)

lemma valid_seed_pad_with_num:
  assumes w: "list_all in_valid_chars w" and n: "list_all in_valid_chars num"
    and s: "s \<in> set (pad_with_num w needed num [])"
  shows "valid_seed s"
proof -
  have f: "in_valid_chars CHR ''1''" "in_valid_chars CHR ''9''"
    "in_valid_chars CHR ''X''" "in_valid_chars CHR ''Z''"
    by (simp_all add: in_valid_chars_def VALID_CHARS_def)
  show ?thesis
    using s w n f unfolding pad_with_num_nil valid_seed_def
    by (auto simp add: length_py_mul1 list_all_py_mul1 split: if_splits)
qed

lemma popular_nums_valid: "\<forall>num \<in> set POPULAR_NUMS. list_all in_valid_chars num"
  by code_simp

lemma valid_seed_padded_results:
  assumes w: "list_all in_valid_chars w" and ne: "w \<noteq> []" and len: "length w < 8"
    and s: "s \<in> set (padded_results w)"
  shows "valid_seed s"
proof -
  have l: "in_valid_chars (last w)" and h: "in_valid_chars (hd w)"
    using w ne by (simp_all add: list_all_iff)
  have p: "\<forall>c \<in> set ''123456789XZQ''. in_valid_chars c"
    by code_simp
  from s consider
      (num) num where "num \<in> set POPULAR_NUMS"
        "s \<in> set (pad_with_num w (8 - int (length w)) num [])"
    | (last) "s = w @ py_mul [last w] (8 - int (length w))"
    | (first) "s = py_mul [hd w] (8 - int (length w)) @ w"
    | (pad) c where "c \<in> set ''123456789XZQ''" "s = w @ py_mul [c] (8 - int (length w))"
    unfolding padded_results_eq by auto
  then show ?thesis
  proof cases
    case num
    then show ?thesis using popular_nums_valid w by (blast intro: valid_seed_pad_with_num)
  next
    case last
    then show ?thesis using w l len
      by (simp add: valid_seed_def length_py_mul1 list_all_py_mul1)
  next
    case first
    then show ?thesis using w h len
      by (simp add: valid_seed_def length_py_mul1 list_all_py_mul1)
  next
    case pad
    from p pad(1) have "in_valid_chars c" by (rule bspec)
    with pad(2) show ?thesis using w len
      by (simp add: valid_seed_def length_py_mul1 list_all_py_mul1)
  qed
qed

lemma normalize_valid: "list_all in_valid_chars (normalize w)"
  by (simp add: normalize_def list_all_iff)

text \<open>A word of 4 to 7 characters collects at most 142 results, below the limit.\<close>

lemma length_pad_with_num:
  "length (pad_with_num w needed num []) =
     (if int (length num) \<le> needed \<and> int (length w) + int (length num) \<le> 8 then
        (if int (length w) + int (length num) = 8 then 2 else 8)
      else 0)"
  by (simp add: pad_with_num_nil)

lemma length_number_loop:
  assumes "4 \<le> length w" and "length w < 8"
  shows "length (concat (map (\<lambda>num. pad_with_num w (8 - int (length w)) num [])
           POPULAR_NUMS)) \<le> 128"
proof -
  from assms consider "length w = 4" | "length w = 5" | "length w = 6" | "length w = 7"
    by linarith
  then show ?thesis
    unfolding POPULAR_NUMS_def
    by cases (simp_all add: length_pad_with_num)
qed

lemma length_padded_results_split:
  "length (padded_results w) =
     length (concat (map (\<lambda>num. pad_with_num w (8 - int (length w)) num []) POPULAR_NUMS))
       + 14"
  unfolding padded_results_eq by simp

lemma length_padded_results:
  assumes "4 \<le> length w" and "length w < 8"
  shows "length (padded_results w) \<le> 142"
  using length_number_loop [OF assms] by (simp only: length_padded_results_split)

text \<open>The three ways out of \<open>generate_padded_combinations\<close>.\<close>

lemma padded_combinations_cases:
  "generate_padded_combinations iter word m =
     (if normalize word = [] \<or> 8 < length (normalize word) then []
      else if length (normalize word) = 8 then [normalize word]
      else py_slice_to (iter (padded_results (normalize word))) m)"
  by (simp add: generate_padded_combinations_def Let_def add_py_def)

lemma padded_combinations_skip:
  assumes "normalize word = [] \<or> 8 < length (normalize word)"
  shows "generate_padded_combinations iter word m = []"
  unfolding padded_combinations_cases using assms by (rule if_P)

lemma padded_combinations_exact:
  assumes "length (normalize word) = 8"
  shows "generate_padded_combinations iter word m = [normalize word]"
proof -
  from assms have "normalize word \<noteq> []" by fastforce
  with assms show ?thesis unfolding padded_combinations_cases by simp
qed

lemma padded_combinations_short:
  assumes "normalize word \<noteq> []" and "length (normalize word) < 8"
  shows "generate_padded_combinations iter word m
           = py_slice_to (iter (padded_results (normalize word))) m"
  unfolding padded_combinations_cases using assms by simp

lemma padded_combinations_valid_seed:
  assumes it: "valid_iteration iter"
    and s: "s \<in> set (generate_padded_combinations iter word m)"
  shows "valid_seed s"
proof -
  let ?w = "normalize word"
  have "length ?w = 0 \<or> 8 < length ?w \<or> length ?w = 8 \<or> (0 < length ?w \<and> length ?w < 8)"
    by linarith
  then consider (skip) "?w = [] \<or> 8 < length ?w" | (exact) "length ?w = 8"
    | (short) "?w \<noteq> []" "length ?w < 8"
    by fastforce
  then show ?thesis
  proof cases
    case skip
    from s show ?thesis unfolding padded_combinations_skip [OF skip] by simp
  next
    case exact
    from s have "s = ?w" unfolding padded_combinations_exact [OF exact] by simp
    then show ?thesis using exact normalize_valid [of word] by (simp only: valid_seed_def simp_thms)
  next
    case short
    from s have "s \<in> set (py_slice_to (iter (padded_results ?w)) m)"
      unfolding padded_combinations_short [OF short] .
    with set_py_slice_to [of "iter (padded_results ?w)" m]
    have "s \<in> set (iter (padded_results ?w))" by (rule subsetD)
    with it have "s \<in> set (padded_results ?w)" by (simp only: valid_iterationD(2))
    with normalize_valid [of word] short show ?thesis
      by (rule valid_seed_padded_results)
  qed
qed

lemma padded_combinations_untruncated:
  assumes it: "valid_iteration iter"
    and ne: "normalize word \<noteq> []" and len: "length (normalize word) < 8"
    and fits: "length (padded_results (normalize word)) \<le> 200"
  shows "generate_padded_combinations iter word 200 = iter (padded_results (normalize word))"
proof -
  have "length (iter (padded_results (normalize word))) \<le> 200"
    using length_iter_le [OF it] fits by (rule order_trans)
  then have "py_slice_to (iter (padded_results (normalize word))) 200
      = iter (padded_results (normalize word))"
    by (simp add: py_slice_to_all)
  then show ?thesis unfolding padded_combinations_short [OF ne len] .
qed

section \<open>Properties of generate_padded_combinations\<close>

text \<open>
  Claim C5. For the word \<open>GAME\<close> the set returned by the padding phase contains
  \<open>GAME1111\<close>, \<open>GAME9999\<close> and \<open>GAMEEEEE\<close>, whatever the order in which the set of
  results is iterated: the word yields 142 additions, so the limit of 200 removes nothing.
\<close>
theorem padded_GAME_members:
  assumes "valid_iteration iter"
  shows "{''GAME1111'', ''GAME9999'', ''GAMEEEEE''}
           \<subseteq> set (generate_padded_combinations iter ''GAME'' 200)"
proof -
  have n: "normalize ''GAME'' = ''GAME''" by code_simp
  have l: "length (padded_results ''GAME'') = 142" by code_simp
  have "generate_padded_combinations iter ''GAME'' 200 = iter (padded_results ''GAME'')"
    using padded_combinations_untruncated [OF assms, of "''GAME''"] by (simp add: n l)
  then have "set (generate_padded_combinations iter ''GAME'' 200) = set (padded_results ''GAME'')"
    using assms by (simp only: valid_iterationD(2))
  moreover have "''GAME1111'' \<in> set (padded_results ''GAME'')" by code_simp
  moreover have "''GAME9999'' \<in> set (padded_results ''GAME'')" by code_simp
  moreover have "''GAMEEEEE'' \<in> set (padded_results ''GAME'')" by code_simp
  ultimately show ?thesis by simp
qed

theorem padded_GAME_members_witness:
  "valid_iteration insertion_order \<and>
   {''GAME1111'', ''GAME9999'', ''GAMEEEEE''}
     \<subseteq> set (generate_padded_combinations insertion_order ''GAME'' 200)"
  using padded_GAME_members [OF valid_insertion_order] valid_insertion_order
  by (rule conjI [rotated])

text \<open>
  Claim C6. When the normalized word has exactly 8 characters, the returned set is the
  singleton of the normalized word, for every iteration order and every limit.
\<close>
theorem exact_length_singleton:
  assumes "length (normalize word) = 8"
  shows "set (generate_padded_combinations iter word max_results) = {normalize word}"
  unfolding padded_combinations_exact [OF assms] by simp

theorem exact_length_singleton_witness:
  "length (normalize ''omegaLUL'') = 8 \<and>
   set (generate_padded_combinations insertion_order ''omegaLUL'' 200) = {''OMEGALUL''}"
proof -
  have n: "normalize ''omegaLUL'' = ''OMEGALUL''" by code_simp
  have h: "length (normalize ''omegaLUL'') = 8" unfolding n by simp
  from exact_length_singleton [OF h, of insertion_order 200]
  have "set (generate_padded_combinations insertion_order ''omegaLUL'' 200) = {''OMEGALUL''}"
    unfolding n .
  with h show ?thesis by (rule conjI)
qed

text \<open>
  Claim C7. When the normalized word is empty or longer than 8 characters, the returned set
  is empty; the function has no failing branch, the word is dropped silently.
\<close>
theorem unusable_word_dropped:
  assumes "normalize word = [] \<or> 8 < length (normalize word)"
  shows "generate_padded_combinations iter word max_results = []"
  using assms by (rule padded_combinations_skip)

theorem unusable_word_dropped_witness:
  "8 < length (normalize ''DISCHARGE'') \<and>
   generate_padded_combinations insertion_order ''DISCHARGE'' 200 = [] \<and>
   normalize ''0-0'' = [] \<and>
   generate_padded_combinations insertion_order ''0-0'' 200 = []"
proof -
  have a: "normalize ''DISCHARGE'' = ''DISCHARGE''" by code_simp
  have h: "8 < length (normalize ''DISCHARGE'')" unfolding a by simp
  have e: "normalize ''0-0'' = []" by code_simp
  from h e unusable_word_dropped [OF disjI2, OF h, of insertion_order 200]
    unusable_word_dropped [OF disjI1, OF e, of insertion_order 200]
  show ?thesis by (intro conjI)
qed

text \<open>
  Claim C8. With the default limit of 200 the returned set has at most 200 elements, for
  every word and every iteration order.
\<close>
theorem padded_combinations_at_most_200:
  "card (set (generate_padded_combinations iter word 200)) \<le> 200"
proof -
  have "length (generate_padded_combinations iter word 200) \<le> 200"
    using length_py_slice_to [of 200 "iter (padded_results (normalize word))"]
    by (simp add: padded_combinations_cases)
  with card_length [of "generate_padded_combinations iter word 200"]
  show ?thesis by (rule order_trans)
qed

text \<open>
  Claim C9. Every string returned by the padding phase, for any word, already has length 8
  and only characters of the alphabet; the last filter of \<open>generate_word_combinations\<close>
  therefore keeps every one of them.
\<close>
theorem padded_combinations_already_valid:
  assumes "valid_iteration iter"
  shows "(\<forall>s \<in> set (generate_padded_combinations iter word 200).
            length s = 8 \<and> (\<forall>c \<in> set s. c \<in> set VALID_CHARS)) \<and>
         filter valid_seed (generate_padded_combinations iter word 200)
           = generate_padded_combinations iter word 200"
proof -
  have v: "\<forall>s \<in> set (generate_padded_combinations iter word 200). valid_seed s"
    using padded_combinations_valid_seed [OF assms] by (rule ballI)
  then have "\<forall>s \<in> set (generate_padded_combinations iter word 200).
            length s = 8 \<and> (\<forall>c \<in> set s. c \<in> set VALID_CHARS)"
    by (simp add: valid_seed_def list_all_iff in_valid_chars_def)
  moreover from v have "filter valid_seed (generate_padded_combinations iter word 200)
           = generate_padded_combinations iter word 200"
    by (simp only: filter_id_conv)
  ultimately show ?thesis by (rule conjI)
qed

theorem padded_combinations_already_valid_witness:
  "valid_iteration insertion_order \<and>
   ''GAMEQQQQ'' \<in> set (generate_padded_combinations insertion_order ''ga-me0'' 200) \<and>
   length ''GAMEQQQQ'' = 8 \<and> set ''GAMEQQQQ'' \<subseteq> set VALID_CHARS \<and>
   filter valid_seed (generate_padded_combinations insertion_order ''ga-me0'' 200)
     = generate_padded_combinations insertion_order ''ga-me0'' 200"
proof -
  have n: "normalize ''ga-me0'' = ''GAME''" by code_simp
  have l: "length (padded_results ''GAME'') = 142" by code_simp
  have "generate_padded_combinations insertion_order ''ga-me0'' 200
      = insertion_order (padded_results ''GAME'')"
    using padded_combinations_untruncated [OF valid_insertion_order, of "''ga-me0''"]
    by (simp add: n l)
  then have "set (generate_padded_combinations insertion_order ''ga-me0'' 200)
      = set (padded_results ''GAME'')"
    using valid_insertion_order by (simp only: valid_iterationD(2))
  moreover have "''GAMEQQQQ'' \<in> set (padded_results ''GAME'')" by code_simp
  ultimately have m: "''GAMEQQQQ''
      \<in> set (generate_padded_combinations insertion_order ''ga-me0'' 200)"
    by simp
  note t = padded_combinations_already_valid [OF valid_insertion_order, of "''ga-me0''"]
  from t have a: "\<forall>s \<in> set (generate_padded_combinations insertion_order ''ga-me0'' 200).
      length s = 8 \<and> (\<forall>c \<in> set s. c \<in> set VALID_CHARS)"
    by (rule conjunct1)
  from t have b: "filter valid_seed (generate_padded_combinations insertion_order ''ga-me0'' 200)
     = generate_padded_combinations insertion_order ''ga-me0'' 200"
    by (rule conjunct2)
  from a m have c: "length ''GAMEQQQQ'' = 8 \<and> (\<forall>c \<in> set ''GAMEQQQQ''. c \<in> set VALID_CHARS)"
    by (rule bspec)
  then have c1: "length ''GAMEQQQQ'' = 8" by (rule conjunct1)
  from c have "\<forall>c \<in> set ''GAMEQQQQ''. c \<in> set VALID_CHARS" by (rule conjunct2)
  then have c2: "set ''GAMEQQQQ'' \<subseteq> set VALID_CHARS" by (simp only: subset_eq)
  from valid_insertion_order m c1 c2 b show ?thesis by (intro conjI)
qed

section \<open>The seeds collected by generate_word_combinations\<close>

text \<open>Each loop body appends to the log of \<^verbatim>\<open>all_seeds\<close>; so do the four loops.\<close>

lemma word_step_eq:
  "word_step iter w s =
     s @ (if 8 < length w then []
          else iter (generate_padded_combinations iter w 200) @
               concat (map (\<lambda>lw. iter (generate_padded_combinations iter lw 200))
                 (generate_leet_variations w)))"
proof -
  have "fold (\<lambda>lw. update_py iter (generate_padded_combinations iter lw 200)) vs t
      = t @ concat (map (\<lambda>lw. iter (generate_padded_combinations iter lw 200)) vs)" for vs t
    by (rule fold_appends) (rule update_py_append)
  then show ?thesis by (simp add: word_step_def Let_def update_py_append)
qed

lemma pattern_step_eq: "pattern_step p s = s @ (if valid_seed p then [p] else [])"
  by (simp add: pattern_step_def valid_seed_def add_py_def)

lemma pair_step_eq:
  "pair_step iter w1 w2 s =
     s @ (if length w1 + length w2 < 8 then iter (generate_padded_combinations iter (w1 @ w2) 200)
          else if length w1 + length w2 = 8 then [w1 @ w2] else [])"
  by (simp add: pair_step_def Let_def update_py_append add_py_def)

lemma number_step_eq:
  "number_step w num s =
     s @ (if length w + length num \<le> 8 then
            [take 8 (w @ num @ py_mul ''1'' (8 - int (length w) - int (length num))),
             take 8 (num @ w @ py_mul ''1'' (8 - int (length w) - int (length num))),
             take 8 (w @ num @ py_mul ''X'' (8 - int (length w) - int (length num))),
             take 8 (num @ w @ py_mul ''Z'' (8 - int (length w) - int (length num)))]
          else [])"
  by (simp add: number_step_def Let_def add_py_def)

lemma collect_seeds_eq:
  "collect_seeds iter ws =
     concat (map (\<lambda>w. word_step iter w []) ws) @
     concat (map (\<lambda>p. pattern_step p []) number_patterns) @
     concat (map (\<lambda>w1. concat (map (\<lambda>w2. pair_step iter w1 w2 []) (take 50 ws))) (take 50 ws)) @
     concat (map (\<lambda>w. concat (map (\<lambda>n. number_step w n [])
       [''69'', ''42'', ''666'', ''777'', ''888'', ''999'', ''123'', ''321'', ''111''])) ws)"
proof -
  have a: "fold (word_step iter) xs s = s @ concat (map (\<lambda>w. word_step iter w []) xs)" for xs s
    by (rule fold_appends) (simp add: word_step_eq)
  have b: "fold pattern_step xs s = s @ concat (map (\<lambda>p. pattern_step p []) xs)" for xs s
    by (rule fold_appends) (simp add: pattern_step_eq)
  have c0: "fold (pair_step iter w1) xs s = s @ concat (map (\<lambda>w2. pair_step iter w1 w2 []) xs)"
    for w1 xs s
    by (rule fold_appends) (simp add: pair_step_eq)
  have c: "fold (\<lambda>w1. fold (pair_step iter w1) ys) xs s
      = s @ concat (map (\<lambda>w1. concat (map (\<lambda>w2. pair_step iter w1 w2 []) ys)) xs)" for xs ys s
    by (rule fold_appends) (rule c0)
  have d0: "fold (number_step w) xs s = s @ concat (map (\<lambda>n. number_step w n []) xs)" for w xs s
    by (rule fold_appends) (simp add: number_step_eq)
  have d: "fold (\<lambda>w. fold (number_step w) ns) xs s
      = s @ concat (map (\<lambda>w. concat (map (\<lambda>n. number_step w n []) ns)) xs)" for xs ns s
    by (rule fold_appends) (rule d0)
  show ?thesis
    unfolding collect_seeds_def Let_def a b c d by simp
qed

lemma number_patterns_valid: "\<forall>p \<in> set number_patterns. valid_seed p"
  by code_simp

lemma number_patterns_distinct: "distinct number_patterns"
  by code_simp

lemma number_patterns_length: "length number_patterns = 48"
  by code_simp

lemma pattern_part:
  assumes "\<forall>p \<in> set ps. valid_seed p"
  shows "concat (map (\<lambda>p. pattern_step p []) ps) = ps"
  using assms by (induction ps) (simp_all add: pattern_step_eq)

lemma set_middle: "set ys \<subseteq> set (xs @ ys @ zs)"
  by auto

lemma patterns_collected: "set number_patterns \<subseteq> set (collect_seeds iter ws)"
  unfolding collect_seeds_eq pattern_part [OF number_patterns_valid] by (rule set_middle)

lemma written_lines:
  "fst (generate_word_combinations iter ws)
     = sort (filter valid_seed (iter (collect_seeds iter ws)))"
  by (simp add: generate_word_combinations_def Let_def)

lemma returned_count:
  "snd (generate_word_combinations iter ws) = length (fst (generate_word_combinations iter ws))"
  by (simp add: generate_word_combinations_def Let_def)

lemma set_written_lines:
  assumes "valid_iteration iter"
  shows "set (fst (generate_word_combinations iter ws))
           = {s \<in> set (collect_seeds iter ws). valid_seed s}"
  unfolding written_lines using assms by (simp add: valid_iterationD(2))

lemma pattern_written:
  assumes it: "valid_iteration iter" and p: "p \<in> set number_patterns"
  shows "p \<in> set (fst (generate_word_combinations iter ws))"
proof -
  from patterns_collected p have "p \<in> set (collect_seeds iter ws)" by (rule subsetD)
  moreover from number_patterns_valid p have "valid_seed p" by (rule bspec)
  ultimately show ?thesis unfolding set_written_lines [OF it] by simp
qed

lemma zero_not_valid: "CHR ''0'' \<notin> set VALID_CHARS"
  by code_simp

section \<open>Properties of the written lines\<close>

text \<open>
  Claim C1. Every line written by \<open>generate_word_combinations\<close>, for every word list and
  every iteration order, has length 8 and only characters of the 35-character alphabet; in
  particular no line contains the digit 0.
\<close>
theorem written_lines_valid:
  "\<forall>s \<in> set (fst (generate_word_combinations iter words)).
     length s = 8 \<and> (\<forall>c \<in> set s. c \<in> set VALID_CHARS) \<and> CHR ''0'' \<notin> set s"
proof
  fix s
  assume "s \<in> set (fst (generate_word_combinations iter words))"
  then have "valid_seed s" unfolding written_lines by simp
  then have l: "length s = 8" and c: "\<forall>c \<in> set s. c \<in> set VALID_CHARS"
    by (simp_all add: valid_seed_def list_all_iff in_valid_chars_def)
  from c zero_not_valid have "CHR ''0'' \<notin> set s" by (rule_tac notI) (drule (1) bspec, simp)
  with l c show "length s = 8 \<and> (\<forall>c \<in> set s. c \<in> set VALID_CHARS) \<and> CHR ''0'' \<notin> set s"
    by (intro conjI)
qed

theorem written_lines_valid_witness:
  "''69696969'' \<in> set (fst (generate_word_combinations insertion_order [''GG''])) \<and>
   length ''69696969'' = 8 \<and> set ''69696969'' \<subseteq> set VALID_CHARS \<and>
   CHR ''0'' \<notin> set ''69696969''"
proof -
  have "''69696969'' \<in> set number_patterns" by code_simp
  with valid_insertion_order
  have m: "''69696969'' \<in> set (fst (generate_word_combinations insertion_order [''GG'']))"
    by (rule pattern_written)
  with written_lines_valid [of insertion_order "[''GG'']"]
  have r: "length ''69696969'' = 8 \<and> (\<forall>c \<in> set ''69696969''. c \<in> set VALID_CHARS) \<and>
     CHR ''0'' \<notin> set ''69696969''"
    by (rule bspec)
  then have r1: "length ''69696969'' = 8" by (elim conjE)
  from r have "\<forall>c \<in> set ''69696969''. c \<in> set VALID_CHARS" by (elim conjE)
  then have r2: "set ''69696969'' \<subseteq> set VALID_CHARS" by (simp only: subset_eq)
  from r have r3: "CHR ''0'' \<notin> set ''69696969''" by (elim conjE)
  from m r1 r2 r3 show ?thesis by (intro conjI)
qed

text \<open>
  Claim C2. The lines written by \<open>generate_word_combinations\<close> are strictly ascending in the
  lexicographic order of strings, hence free of duplicates, for every word list.
\<close>
theorem written_lines_strictly_sorted:
  assumes "valid_iteration iter"
  shows "sorted_wrt (<) (fst (generate_word_combinations iter words)) \<and>
         distinct (fst (generate_word_combinations iter words))"
proof -
  have "distinct (iter (collect_seeds iter words))"
    using assms by (rule valid_iterationD(1))
  then have d: "distinct (fst (generate_word_combinations iter words))"
    unfolding written_lines by simp
  have "sorted (fst (generate_word_combinations iter words))"
    unfolding written_lines by simp
  with d show ?thesis by (simp only: strict_sorted_iff simp_thms)
qed

theorem written_lines_strictly_sorted_witness:
  "valid_iteration insertion_order \<and>
   sorted_wrt (<) (fst (generate_word_combinations insertion_order [''GG'', ''GAME''])) \<and>
   distinct (fst (generate_word_combinations insertion_order [''GG'', ''GAME'']))"
  using valid_insertion_order
    written_lines_strictly_sorted [OF valid_insertion_order, of "[''GG'', ''GAME'']"]
  by (rule conjI)

text \<open>
  Claim C4. Each of the 48 number patterns passes the length and alphabet test, is added
  whatever the word list is, and is among the written lines; so \<open>69696969\<close> is a line of the
  output for \<open>COOL_WORDS\<close>.
\<close>
theorem number_patterns_written:
  assumes "valid_iteration iter"
  shows "length number_patterns = 48 \<and>
         (\<forall>p \<in> set number_patterns.
            length p = 8 \<and> (\<forall>c \<in> set p. c \<in> set VALID_CHARS) \<and>
            p \<in> set (fst (generate_word_combinations iter words))) \<and>
         ''69696969'' \<in> set (fst (generate_word_combinations iter COOL_WORDS))"
proof -
  have a: "\<forall>p \<in> set number_patterns.
            length p = 8 \<and> (\<forall>c \<in> set p. c \<in> set VALID_CHARS) \<and>
            p \<in> set (fst (generate_word_combinations iter words))"
  proof
    fix p
    assume p: "p \<in> set number_patterns"
    with number_patterns_valid have "valid_seed p" by (rule bspec)
    then have "length p = 8" and "\<forall>c \<in> set p. c \<in> set VALID_CHARS"
      by (simp_all add: valid_seed_def list_all_iff in_valid_chars_def)
    moreover from assms p have "p \<in> set (fst (generate_word_combinations iter words))"
      by (rule pattern_written)
    ultimately show "length p = 8 \<and> (\<forall>c \<in> set p. c \<in> set VALID_CHARS) \<and>
            p \<in> set (fst (generate_word_combinations iter words))"
      by (intro conjI)
  qed
  have "''69696969'' \<in> set number_patterns" by code_simp
  with assms have b: "''69696969'' \<in> set (fst (generate_word_combinations iter COOL_WORDS))"
    by (rule pattern_written)
  from number_patterns_length a b show ?thesis by (intro conjI)
qed

theorem number_patterns_written_witness:
  "valid_iteration insertion_order \<and>
   ''42429999'' \<in> set number_patterns \<and>
   ''42429999'' \<in> set (fst (generate_word_combinations insertion_order [])) \<and>
   ''69696969'' \<in> set (fst (generate_word_combinations insertion_order COOL_WORDS))"
proof -
  note t = number_patterns_written [OF valid_insertion_order, of "[]"]
  have m: "''42429999'' \<in> set number_patterns" by code_simp
  from t have "\<forall>p \<in> set number_patterns.
            length p = 8 \<and> (\<forall>c \<in> set p. c \<in> set VALID_CHARS) \<and>
            p \<in> set (fst (generate_word_combinations insertion_order []))"
    by (elim conjE)
  from this m have "length ''42429999'' = 8 \<and> (\<forall>c \<in> set ''42429999''. c \<in> set VALID_CHARS) \<and>
      ''42429999'' \<in> set (fst (generate_word_combinations insertion_order []))"
    by (rule bspec)
  then have x: "''42429999'' \<in> set (fst (generate_word_combinations insertion_order []))"
    by (elim conjE)
  from t have y: "''69696969'' \<in> set (fst (generate_word_combinations insertion_order COOL_WORDS))"
    by (elim conjE)
  from valid_insertion_order m x y show ?thesis by (intro conjI)
qed

text \<open>
  Claim C10. For the empty word list the function writes exactly the 48 number patterns, in
  ascending order, and returns 48: the count is positive without any input word.
\<close>
theorem empty_word_list_output:
  assumes "valid_iteration iter"
  shows "generate_word_combinations iter [] = (sort number_patterns, 48) \<and>
         distinct number_patterns \<and> length number_patterns = 48"
proof -
  have c: "collect_seeds iter [] = number_patterns"
    unfolding collect_seeds_eq by (simp add: pattern_part [OF number_patterns_valid])
  have s: "set (iter number_patterns) = set number_patterns"
    using assms by (rule valid_iterationD(2))
  have d: "distinct (iter number_patterns)"
    using assms by (rule valid_iterationD(1))
  have "\<forall>p \<in> set (iter number_patterns). valid_seed p"
    unfolding s by (rule number_patterns_valid)
  then have f: "filter valid_seed (iter number_patterns) = iter number_patterns"
    by (simp only: filter_id_conv)
  have e: "sort (iter number_patterns) = sort number_patterns"
    by (rule sorted_distinct_set_unique)
      (simp_all add: s d number_patterns_distinct)
  have "length (iter number_patterns) = card (set (iter number_patterns))"
    using d by (simp only: distinct_card)
  also have "\<dots> = length number_patterns"
    unfolding s using number_patterns_distinct by (simp only: distinct_card)
  finally have n: "length (iter number_patterns) = 48"
    by (simp only: number_patterns_length)
  have "fst (generate_word_combinations iter []) = sort number_patterns"
    unfolding written_lines c f e ..
  moreover have "snd (generate_word_combinations iter []) = 48"
    unfolding returned_count written_lines c f using n by simp
  ultimately have "generate_word_combinations iter [] = (sort number_patterns, 48)"
    by (simp add: prod_eq_iff)
  with number_patterns_distinct number_patterns_length show ?thesis by (intro conjI)
qed

theorem empty_word_list_output_witness:
  "valid_iteration insertion_order \<and>
   generate_word_combinations insertion_order [] = (sort number_patterns, 48)"
proof -
  from empty_word_list_output [OF valid_insertion_order]
  have "generate_word_combinations insertion_order [] = (sort number_patterns, 48)"
    by (elim conjE)
  with valid_insertion_order show ?thesis by (rule conjI)
qed

section \<open>The output and the iteration order\<close>

subsection \<open>When the limit removes nothing\<close>

lemma valid_first_iteration: "valid_iteration (first_iteration t)"
  by (auto simp add: valid_iteration_def first_iteration_def insertion_order_def
      distinct_removeAll)

lemma valid_last_iteration: "valid_iteration (last_iteration t)"
  by (auto simp add: valid_iteration_def last_iteration_def insertion_order_def
      distinct_removeAll)

lemma sort_filter_iteration:
  assumes "valid_iteration iter"
  shows "sort (filter P (iter s)) = sorted_list_of_set {x \<in> set s. P x}"
proof -
  have d: "distinct (filter P (iter s))"
    using valid_iterationD(1) [OF assms] by (rule distinct_filter)
  have "sorted_list_of_set (set (filter P (iter s))) = sort (remdups (filter P (iter s)))"
    by (rule sorted_list_of_set_sort_remdups)
  also have "remdups (filter P (iter s)) = filter P (iter s)"
    using d by (rule distinct_remdups_id)
  finally have "sort (filter P (iter s)) = sorted_list_of_set (set (filter P (iter s)))"
    by (rule sym)
  also have "set (filter P (iter s)) = {x \<in> set s. P x}"
    by (simp add: valid_iterationD(2) [OF assms])
  finally show ?thesis .
qed

lemma output_from_collected:
  assumes "valid_iteration iter1" and "valid_iteration iter2"
    and "set (collect_seeds iter1 ws) = set (collect_seeds iter2 ws)"
  shows "generate_word_combinations iter1 ws = generate_word_combinations iter2 ws"
proof -
  have "fst (generate_word_combinations iter1 ws) = fst (generate_word_combinations iter2 ws)"
    unfolding written_lines sort_filter_iteration [OF assms(1)]
      sort_filter_iteration [OF assms(2)] assms(3) ..
  then show ?thesis by (simp add: prod_eq_iff returned_count)
qed

lemma set_concat_map_cong:
  assumes "\<And>x. x \<in> set xs \<Longrightarrow> set (f x) = set (g x)"
  shows "set (concat (map f xs)) = set (concat (map g xs))"
  using assms by (induction xs) simp_all

lemma normalize_append: "normalize (u @ v) = normalize u @ normalize v"
  by (simp add: normalize_def py_upper_def)

lemma normalize_Cons: "normalize (c # w) = filter in_valid_chars (upper_char c) @ normalize w"
  by (simp add: normalize_def py_upper_def)

lemma length_normalize_replace:
  assumes "length (filter in_valid_chars (upper_char new))
             = length (filter in_valid_chars (upper_char old))"
  shows "length (normalize (py_replace old new w)) = length (normalize w)"
proof (induction w)
  case Nil
  show ?case by (simp add: py_replace_def)
next
  case (Cons c w)
  from Cons.IH have "length (normalize (map (\<lambda>c. if c = old then new else c) w))
      = length (normalize w)"
    by (simp only: py_replace_def)
  with assms show ?case by (simp add: py_replace_def normalize_Cons)
qed

lemma leet_map_letters:
  "\<forall>(old, new) \<in> set leet_map.
     in_valid_chars new \<longrightarrow>
       length (filter in_valid_chars (upper_char new))
         = length (filter in_valid_chars (upper_char old))"
  by code_simp

lemma fold_invariant:
  assumes "P s" and "\<And>x s. x \<in> set xs \<Longrightarrow> P s \<Longrightarrow> P (f x s)"
  shows "P (fold f xs s)"
  using assms by (induction xs arbitrary: s) simp_all

lemma length_normalize_leet:
  assumes "lw \<in> set (generate_leet_variations w)"
  shows "length (normalize lw) = length (normalize w)"
proof -
  let ?P = "\<lambda>vs. \<forall>v \<in> set vs. length (normalize v) = length (normalize w)"
  have "?P (generate_leet_variations w)"
    unfolding generate_leet_variations_def
  proof (rule fold_invariant)
    show "?P [w]" by simp
  next
    fix x :: "char \<times> char" and vs
    assume x: "x \<in> set leet_map" and vs: "?P vs"
    obtain old new where on: "x = (old, new)" by (cases x)
    from leet_map_letters x on
    have "in_valid_chars new \<longrightarrow> length (filter in_valid_chars (upper_char new))
         = length (filter in_valid_chars (upper_char old))"
      by fastforce
    then have "in_valid_chars new \<Longrightarrow>
        length (normalize (py_replace old new w)) = length (normalize w)"
      by (simp add: length_normalize_replace)
    with vs show "?P ((case x of (c, leet) \<Rightarrow> \<lambda>variations.
        if c \<in> set w \<and> in_valid_chars leet
        then variations @ [py_replace c leet w] else variations) vs)"
      unfolding on by simp
  qed
  from this assms show ?thesis by (rule bspec)
qed

lemma padded_set_independent:
  assumes it1: "valid_iteration iter1" and it2: "valid_iteration iter2"
    and safe: "normalize x = [] \<or> 4 \<le> length (normalize x)"
  shows "set (generate_padded_combinations iter1 x 200)
           = set (generate_padded_combinations iter2 x 200)"
proof -
  let ?w = "normalize x"
  have "length ?w = 0 \<or> 8 < length ?w \<or> length ?w = 8 \<or> (0 < length ?w \<and> length ?w < 8)"
    by linarith
  then consider (skip) "?w = [] \<or> 8 < length ?w" | (exact) "length ?w = 8"
    | (short) "?w \<noteq> []" "length ?w < 8"
    by fastforce
  then show ?thesis
  proof cases
    case skip
    show ?thesis
      unfolding padded_combinations_skip [OF skip, of iter1]
        padded_combinations_skip [OF skip, of iter2] ..
  next
    case exact
    show ?thesis
      unfolding padded_combinations_exact [OF exact, of iter1]
        padded_combinations_exact [OF exact, of iter2] ..
  next
    case short
    from safe short(1) have "4 \<le> length ?w" by simp
    from this short(2) have "length (padded_results ?w) \<le> 142"
      by (rule length_padded_results)
    then have fits: "length (padded_results ?w) \<le> 200" by simp
    show ?thesis
      unfolding padded_combinations_untruncated [OF it1 short fits]
        padded_combinations_untruncated [OF it2 short fits]
        valid_iterationD(2) [OF it1] valid_iterationD(2) [OF it2] ..
  qed
qed

lemma padded_iterated_independent:
  assumes it1: "valid_iteration iter1" and it2: "valid_iteration iter2"
    and safe: "normalize x = [] \<or> 4 \<le> length (normalize x)"
  shows "set (iter1 (generate_padded_combinations iter1 x 200))
           = set (iter2 (generate_padded_combinations iter2 x 200))"
  unfolding valid_iterationD(2) [OF it1] valid_iterationD(2) [OF it2]
  using assms by (rule padded_set_independent)

lemma word_step_independent:
  assumes it1: "valid_iteration iter1" and it2: "valid_iteration iter2"
    and safe: "normalize w = [] \<or> 4 \<le> length (normalize w)"
  shows "set (word_step iter1 w []) = set (word_step iter2 w [])"
proof -
  have a: "set (iter1 (generate_padded_combinations iter1 w 200))
      = set (iter2 (generate_padded_combinations iter2 w 200))"
    using assms by (rule padded_iterated_independent)
  have b: "set (concat (map (\<lambda>lw. iter1 (generate_padded_combinations iter1 lw 200))
               (generate_leet_variations w)))
      = set (concat (map (\<lambda>lw. iter2 (generate_padded_combinations iter2 lw 200))
               (generate_leet_variations w)))"
  proof (rule set_concat_map_cong)
    fix lw
    assume "lw \<in> set (generate_leet_variations w)"
    then have "length (normalize lw) = length (normalize w)"
      by (rule length_normalize_leet)
    with safe have "normalize lw = [] \<or> 4 \<le> length (normalize lw)"
      by (metis length_0_conv)
    with it1 it2 show "set (iter1 (generate_padded_combinations iter1 lw 200))
      = set (iter2 (generate_padded_combinations iter2 lw 200))"
      by (rule padded_iterated_independent)
  qed
  show ?thesis unfolding word_step_eq using a b by simp
qed

lemma pair_step_independent:
  assumes it1: "valid_iteration iter1" and it2: "valid_iteration iter2"
    and safe1: "normalize w1 = [] \<or> 4 \<le> length (normalize w1)"
    and safe2: "normalize w2 = [] \<or> 4 \<le> length (normalize w2)"
  shows "set (pair_step iter1 w1 w2 []) = set (pair_step iter2 w1 w2 [])"
proof -
  from safe1 safe2
  have "normalize (w1 @ w2) = [] \<or> 4 \<le> length (normalize (w1 @ w2))"
    unfolding normalize_append by auto
  with it1 it2 have "set (iter1 (generate_padded_combinations iter1 (w1 @ w2) 200))
      = set (iter2 (generate_padded_combinations iter2 (w1 @ w2) 200))"
    by (rule padded_iterated_independent)
  then show ?thesis unfolding pair_step_eq by simp
qed

lemma collect_seeds_independent:
  assumes it1: "valid_iteration iter1" and it2: "valid_iteration iter2"
    and safe: "\<forall>w \<in> set words. normalize w = [] \<or> 4 \<le> length (normalize w)"
  shows "set (collect_seeds iter1 words) = set (collect_seeds iter2 words)"
proof -
  have s: "normalize w = [] \<or> 4 \<le> length (normalize w)" if "w \<in> set words" for w
    using safe that by (rule bspec)
  have a: "set (concat (map (\<lambda>w. word_step iter1 w []) words))
      = set (concat (map (\<lambda>w. word_step iter2 w []) words))"
    by (rule set_concat_map_cong) (rule word_step_independent [OF it1 it2 s])
  have b: "set (concat (map (\<lambda>w1. concat (map (\<lambda>w2. pair_step iter1 w1 w2 [])
               (take 50 words))) (take 50 words)))
      = set (concat (map (\<lambda>w1. concat (map (\<lambda>w2. pair_step iter2 w1 w2 [])
               (take 50 words))) (take 50 words)))"
  proof (rule set_concat_map_cong)
    fix w1
    assume "w1 \<in> set (take 50 words)"
    then have w1: "w1 \<in> set words" by (rule in_set_takeD)
    show "set (concat (map (\<lambda>w2. pair_step iter1 w1 w2 []) (take 50 words)))
      = set (concat (map (\<lambda>w2. pair_step iter2 w1 w2 []) (take 50 words)))"
    proof (rule set_concat_map_cong)
      fix w2
      assume "w2 \<in> set (take 50 words)"
      then have w2: "w2 \<in> set words" by (rule in_set_takeD)
      show "set (pair_step iter1 w1 w2 []) = set (pair_step iter2 w1 w2 [])"
        using it1 it2 s [OF w1] s [OF w2] by (rule pair_step_independent)
    qed
  qed
  show ?thesis unfolding collect_seeds_eq set_append a b ..
qed

lemma valid_reversed_insertion: "valid_iteration (\<lambda>s. rev (insertion_order s))"
  by (simp add: valid_iteration_def insertion_order_def)

subsection \<open>A word with more than 200 results\<close>

text \<open>
  Lists whose elements carry pairwise different keys are disjoint; this counts the distinct
  results of \<open>GG\<close> family by family (number before or after the word, and filler).
\<close>

lemma distinct_families:
  assumes "distinct (map fst fams)"
    and "\<forall>(k, F) \<in> set fams. distinct F \<and> (\<forall>x \<in> set F. key x = k)"
  shows "distinct (concat (map snd fams))"
  using assms
proof (induction fams)
  case Nil
  show ?case by simp
next
  case (Cons kF fams)
  obtain k F where kF: "kF = (k, F)" by (cases kF)
  from Cons.prems have d: "distinct F" and kx: "\<forall>x \<in> set F. key x = k"
    and k: "k \<notin> fst ` set fams" and rest: "distinct (concat (map snd fams))"
    and others: "\<forall>(k', F') \<in> set fams. \<forall>x \<in> set F'. key x = k'"
    using Cons.IH unfolding kF by auto
  have "set F \<inter> set (concat (map snd fams)) = {}"
  proof (rule ccontr)
    assume "set F \<inter> set (concat (map snd fams)) \<noteq> {}"
    then obtain x where x: "x \<in> set F" and "x \<in> set (concat (map snd fams))" by auto
    then obtain k' F' where m: "(k', F') \<in> set fams" and "x \<in> set F'" by auto
    with others have "key x = k'" by auto
    moreover from kx x have "key x = k" by simp
    ultimately have "(k, F') \<in> set fams" using m by simp
    then have "k \<in> fst ` set fams" by force
    with k show False by simp
  qed
  with d rest show ?case unfolding kF by simp
qed

lemma number_after_subset:
  assumes fits: "\<forall>num \<in> set POPULAR_NUMS. length w + length num < 8"
    and nums: "set nums \<subseteq> set POPULAR_NUMS"
    and f: "f \<in> set [''1'', ''9'', ''X'', ''Z'']"
  shows "set (number_after w f nums) \<subseteq> set (padded_results w)"
proof
  fix x
  assume "x \<in> set (number_after w f nums)"
  then obtain num where num: "num \<in> set nums"
    and x: "x = w @ num @ py_mul f (8 - int (length w) - int (length num))"
    unfolding number_after_def by auto
  from nums num have p: "num \<in> set POPULAR_NUMS" by (rule subsetD)
  with fits have l: "length w + length num < 8" by (rule bspec)
  with f have "x \<in> set (pad_with_num w (8 - int (length w)) num [])"
    unfolding pad_with_num_nil x by auto
  with p show "x \<in> set (padded_results w)"
    unfolding padded_results_eq by auto
qed

lemma number_before_subset:
  assumes fits: "\<forall>num \<in> set POPULAR_NUMS. length w + length num < 8"
    and nums: "set nums \<subseteq> set POPULAR_NUMS"
    and f: "f \<in> set [''1'', ''9'', ''X'', ''Z'']"
  shows "set (number_before w f nums) \<subseteq> set (padded_results w)"
proof
  fix x
  assume "x \<in> set (number_before w f nums)"
  then obtain num where num: "num \<in> set nums"
    and x: "x = num @ w @ py_mul f (8 - int (length num) - int (length w))"
    unfolding number_before_def by auto
  from nums num have p: "num \<in> set POPULAR_NUMS" by (rule subsetD)
  with fits have l: "length w + length num < 8" by (rule bspec)
  with f have "x \<in> set (pad_with_num w (8 - int (length w)) num [])"
    unfolding pad_with_num_nil x by auto
  with p show "x \<in> set (padded_results w)"
    unfolding padded_results_eq by auto
qed

lemma normalize_GG: "normalize ''GG'' = ''GG''"
  by code_simp

lemma GG_fits: "\<forall>num \<in> set POPULAR_NUMS. length ''GG'' + length num < 8"
  by code_simp

lemma GG_distinct_results:
  "201 \<le> card (set (padded_results ''GG'') - {''GGQQQQQQ''})"
proof -
  define fams where "fams =
      [((False, CHR ''1''), number_before ''GG'' ''1'' POPULAR_NUMS),
       ((False, CHR ''9''), number_before ''GG'' ''9'' POPULAR_NUMS),
       ((False, CHR ''X''), number_before ''GG'' ''X'' POPULAR_NUMS),
       ((False, CHR ''Z''), number_before ''GG'' ''Z'' POPULAR_NUMS),
       ((True, CHR ''X''), number_after ''GG'' ''X'' POPULAR_NUMS),
       ((True, CHR ''Z''), number_after ''GG'' ''Z'' POPULAR_NUMS),
       ((True, CHR ''1''), number_after ''GG'' ''1'' (removeAll ''1111'' POPULAR_NUMS)),
       ((True, CHR ''9''), number_after ''GG'' ''9'' (removeAll ''9999'' POPULAR_NUMS)),
       ((True, CHR ''G''), [''GGGGGGGG'']),
       ((True, CHR ''2''), [''GG222222'']),
       ((True, CHR ''3''), [''GG333333''])]"
  define D where "D = concat (map snd fams)"
  have keys: "distinct (map fst fams)"
    unfolding fams_def by code_simp
  have fam: "\<forall>(k, F) \<in> set fams. distinct F \<and> (\<forall>x \<in> set F. (hd x = CHR ''G'', last x) = k)"
    unfolding fams_def by code_simp
  from keys fam have dist: "distinct D"
    unfolding D_def by (rule distinct_families)
  have len: "length D = 201"
    unfolding D_def fams_def by code_simp
  have nt: "''GGQQQQQQ'' \<notin> set D"
    unfolding D_def fams_def by code_simp
  have f: "''1'' \<in> set [''1'', ''9'', ''X'', ''Z'']" "''9'' \<in> set [''1'', ''9'', ''X'', ''Z'']"
    "''X'' \<in> set [''1'', ''9'', ''X'', ''Z'']" "''Z'' \<in> set [''1'', ''9'', ''X'', ''Z'']"
    by simp_all
  have r: "set (removeAll x POPULAR_NUMS) \<subseteq> set POPULAR_NUMS" for x
    by auto
  note b = number_before_subset [OF GG_fits subset_refl]
  note a = number_after_subset [OF GG_fits]
  have e: "''GGGGGGGG'' \<in> set (padded_results ''GG'')"
    "''GG222222'' \<in> set (padded_results ''GG'')"
    "''GG333333'' \<in> set (padded_results ''GG'')"
    by code_simp+
  have sub: "set D \<subseteq> set (padded_results ''GG'')"
    unfolding D_def fams_def
    using b [OF f(1)] b [OF f(2)] b [OF f(3)] b [OF f(4)]
      a [OF subset_refl f(3)] a [OF subset_refl f(4)] a [OF r f(1)] a [OF r f(2)] e
    by simp
  with nt have "set D \<subseteq> set (padded_results ''GG'') - {''GGQQQQQQ''}"
    by (simp add: subset_Diff_insert)
  then have "card (set D) \<le> card (set (padded_results ''GG'') - {''GGQQQQQQ''})"
    by (rule card_mono [rotated]) simp
  with dist len show ?thesis by (simp add: distinct_card)
qed

lemma take_head: "0 < n \<Longrightarrow> x \<in> set (take n (x # xs))"
  by (cases n) simp_all

lemma padded_member_cases:
  assumes it: "valid_iteration iter"
    and s: "s \<in> set (generate_padded_combinations iter x m)"
  shows "s = normalize x \<or> s \<in> set (padded_results (normalize x))"
proof -
  let ?w = "normalize x"
  have "length ?w = 0 \<or> 8 < length ?w \<or> length ?w = 8 \<or> (0 < length ?w \<and> length ?w < 8)"
    by linarith
  then consider (skip) "?w = [] \<or> 8 < length ?w" | (exact) "length ?w = 8"
    | (short) "?w \<noteq> []" "length ?w < 8"
    by fastforce
  then show ?thesis
  proof cases
    case skip
    from s show ?thesis unfolding padded_combinations_skip [OF skip] by simp
  next
    case exact
    from s show ?thesis unfolding padded_combinations_exact [OF exact] by simp
  next
    case short
    from s have "s \<in> set (py_slice_to (iter (padded_results ?w)) m)"
      unfolding padded_combinations_short [OF short] .
    with set_py_slice_to [of "iter (padded_results ?w)" m]
    have "s \<in> set (iter (padded_results ?w))" by (rule subsetD)
    with it have "s \<in> set (padded_results ?w)" by (simp only: valid_iterationD(2))
    then show ?thesis by (rule disjI2)
  qed
qed

lemma target_in_results: "''GGQQQQQQ'' \<in> set (padded_results ''GG'')"
  by code_simp

lemma target_kept_when_first:
  "''GGQQQQQQ'' \<in> set (generate_padded_combinations (first_iteration ''GGQQQQQQ'') ''GG'' 200)"
proof -
  have "generate_padded_combinations (first_iteration ''GGQQQQQQ'') ''GG'' 200
      = py_slice_to (first_iteration ''GGQQQQQQ'' (padded_results ''GG'')) 200"
    using padded_combinations_short [of "''GG''"] by (simp add: normalize_GG)
  also have "\<dots> = take 200 (''GGQQQQQQ''
      # removeAll ''GGQQQQQQ'' (insertion_order (padded_results ''GG'')))"
    using target_in_results by (simp add: py_slice_to_def first_iteration_def)
  finally show ?thesis by (simp only: take_head zero_less_numeral)
qed

lemma target_cut_when_last:
  "''GGQQQQQQ'' \<notin> set (generate_padded_combinations (last_iteration ''GGQQQQQQ'') ''GG'' 200)"
proof -
  let ?t = "''GGQQQQQQ''"
  let ?xs = "removeAll ?t (insertion_order (padded_results ''GG''))"
  have d: "distinct ?xs"
    using valid_iterationD(1) [OF valid_insertion_order] by (rule distinct_removeAll)
  have c: "card (set ?xs) = length ?xs"
    using d by (rule distinct_card)
  have sx: "set ?xs = set (padded_results ''GG'') - {?t}"
    by (simp add: valid_iterationD(2) [OF valid_insertion_order])
  have "201 \<le> card (set ?xs)"
    unfolding sx by (rule GG_distinct_results)
  then have l: "201 \<le> length ?xs"
    unfolding c .
  have "generate_padded_combinations (last_iteration ?t) ''GG'' 200
      = py_slice_to (last_iteration ?t (padded_results ''GG'')) 200"
    using padded_combinations_short [of "''GG''"] by (simp add: normalize_GG)
  also have "\<dots> = take 200 (?xs @ [?t])"
    using target_in_results by (simp add: py_slice_to_def last_iteration_def)
  also have "\<dots> = take 200 ?xs" using l by simp
  finally have g: "generate_padded_combinations (last_iteration ?t) ''GG'' 200 = take 200 ?xs" .
  have "?t \<notin> set ?xs" by simp
  moreover have "set (take 200 ?xs) \<subseteq> set ?xs" by (rule set_take_subset)
  ultimately have "?t \<notin> set (take 200 ?xs)" by (rule contra_subsetD [rotated])
  then show ?thesis unfolding g .
qed

lemma leet_GG: "generate_leet_variations ''GG'' = [''GG'', ''66'']"
  by code_simp

lemma target_elsewhere:
  "normalize ''66'' = ''66''" "normalize ''GGGG'' = ''GGGG''"
  "''GGQQQQQQ'' \<notin> set (padded_results ''66'')"
  "''GGQQQQQQ'' \<notin> set (padded_results ''GGGG'')"
  "''GGQQQQQQ'' \<notin> set number_patterns"
  "''GGQQQQQQ'' \<notin> set (concat (map (\<lambda>n. number_step ''GG'' n [])
       [''69'', ''42'', ''666'', ''777'', ''888'', ''999'', ''123'', ''321'', ''111'']))"
  "valid_seed ''GGQQQQQQ''"
  by code_simp+

lemma padded_collected:
  assumes it: "valid_iteration iter" and w: "w \<in> set ws" and l: "length w \<le> 8"
  shows "set (generate_padded_combinations iter w 200) \<subseteq> set (collect_seeds iter ws)"
proof -
  have "set (generate_padded_combinations iter w 200) \<subseteq> set (word_step iter w [])"
    unfolding word_step_eq using l by (simp add: valid_iterationD(2) [OF it])
  also from w have "\<dots> \<subseteq> set (concat (map (\<lambda>w. word_step iter w []) ws))"
    by auto
  also have "\<dots> \<subseteq> set (collect_seeds iter ws)"
    unfolding collect_seeds_eq by simp
  finally show ?thesis .
qed

lemma target_written_when_first:
  "''GGQQQQQQ''
     \<in> set (fst (generate_word_combinations (first_iteration ''GGQQQQQQ'') [''GG'']))"
proof -
  have "set (generate_padded_combinations (first_iteration ''GGQQQQQQ'') ''GG'' 200)
      \<subseteq> set (collect_seeds (first_iteration ''GGQQQQQQ'') [''GG''])"
    by (rule padded_collected [OF valid_first_iteration]) simp_all
  from this target_kept_when_first
  have "''GGQQQQQQ'' \<in> set (collect_seeds (first_iteration ''GGQQQQQQ'') [''GG''])"
    by (rule subsetD)
  with target_elsewhere(7) show ?thesis
    unfolding set_written_lines [OF valid_first_iteration] by simp
qed

lemma target_missing_when_last:
  "''GGQQQQQQ''
     \<notin> set (fst (generate_word_combinations (last_iteration ''GGQQQQQQ'') [''GG'']))"
proof -
  let ?L = "last_iteration ''GGQQQQQQ''"
  note it = valid_last_iteration [of "''GGQQQQQQ''"]
  have a: "''GGQQQQQQ'' \<notin> set (generate_padded_combinations ?L ''66'' 200)"
    using padded_member_cases [OF it, of "''GGQQQQQQ''" "''66''" 200] target_elsewhere(3)
    unfolding target_elsewhere(1) by auto
  have b: "''GGQQQQQQ'' \<notin> set (generate_padded_combinations ?L ''GGGG'' 200)"
    using padded_member_cases [OF it, of "''GGQQQQQQ''" "''GGGG''" 200] target_elsewhere(4)
    unfolding target_elsewhere(2) by auto
  have "''GGQQQQQQ'' \<notin> set (collect_seeds ?L [''GG''])"
    unfolding collect_seeds_eq pattern_part [OF number_patterns_valid]
    using target_cut_when_last a b target_elsewhere(5,6)
    by (simp add: word_step_eq pair_step_eq leet_GG valid_iterationD(2) [OF it])
  then show ?thesis
    unfolding set_written_lines [OF it] by simp
qed

subsection \<open>Two runs\<close>

text \<open>
  Claim C3 says that two runs on the same word list write the same lines, also across the
  limit of 200 in \<open>generate_padded_combinations\<close>. As stated it fails: the word \<open>GG\<close> yields
  more than 200 distinct candidates, and which of them the limit keeps depends on the order
  in which the set of results is iterated. With the word list \<open>[GG]\<close>, the line \<open>GGQQQQQQ\<close>
  is written by a run that meets it first and is missing from a run that meets it last.
\<close>
theorem output_depends_on_iteration:
  "valid_iteration (first_iteration ''GGQQQQQQ'') \<and>
   valid_iteration (last_iteration ''GGQQQQQQ'') \<and>
   fst (generate_word_combinations (first_iteration ''GGQQQQQQ'') [''GG''])
     \<noteq> fst (generate_word_combinations (last_iteration ''GGQQQQQQ'') [''GG''])"
proof -
  have "fst (generate_word_combinations (first_iteration ''GGQQQQQQ'') [''GG''])
     \<noteq> fst (generate_word_combinations (last_iteration ''GGQQQQQQ'') [''GG''])"
  proof
    assume "fst (generate_word_combinations (first_iteration ''GGQQQQQQ'') [''GG''])
      = fst (generate_word_combinations (last_iteration ''GGQQQQQQ'') [''GG''])"
    with target_written_when_first
    have "''GGQQQQQQ''
       \<in> set (fst (generate_word_combinations (last_iteration ''GGQQQQQQ'') [''GG'']))"
      by (simp only:)
    with target_missing_when_last show False by (rule notE)
  qed
  with valid_first_iteration valid_last_iteration show ?thesis by (intro conjI)
qed

text \<open>
  Claim C3, as amended. When the normalization of every word of the list is empty or has at
  least 4 characters, no call of the padding phase builds more than 200 candidates, the
  limit removes nothing, and two runs write the same lines and return the same count
  whatever the orders in which the two runs iterate their sets.
\<close>
theorem output_independent_of_iteration:
  assumes "valid_iteration iter1" and "valid_iteration iter2"
    and "\<forall>w \<in> set words. normalize w = [] \<or> 4 \<le> length (normalize w)"
  shows "generate_word_combinations iter1 words = generate_word_combinations iter2 words"
  using assms(1,2) collect_seeds_independent [OF assms]
  by (rule output_from_collected)

theorem output_independent_of_iteration_witness:
  "valid_iteration insertion_order \<and> valid_iteration (\<lambda>s. rev (insertion_order s)) \<and>
   4 \<le> length (normalize ''game'') \<and> normalize ''0-0'' = [] \<and>
   generate_word_combinations insertion_order [''game'', ''0-0'']
     = generate_word_combinations (\<lambda>s. rev (insertion_order s)) [''game'', ''0-0'']"
proof -
  have g: "normalize ''game'' = ''GAME''" by code_simp
  then have a: "4 \<le> length (normalize ''game'')" by simp
  have b: "normalize ''0-0'' = []" by code_simp
  from a b
  have h: "\<forall>w \<in> set [''game'', ''0-0'']. normalize w = [] \<or> 4 \<le> length (normalize w)"
    by simp
  from valid_insertion_order valid_reversed_insertion a b
    output_independent_of_iteration [OF valid_insertion_order valid_reversed_insertion h]
  show ?thesis by (intro conjI)
qed

end
